theory Spec2Isabelle
  imports Main "HOL-Library.Word"
begin

unbundle bit_operations_syntax

section \<open>WebSocket framing over a custom scheme: the frame codec\<close>

text \<open>
  The prototype \<^verbatim>\<open>prototypes/06-websocket-scheme/main.cpp\<close> frames messages as in
  RFC 6455. Bytes are \<open>std::uint8_t\<close>; \<open>std::size_t\<close> and \<open>std::uint64_t\<close> are both
  64-bit unsigned integers, whose addition wraps around.
\<close>

type_synonym u8 = "8 word"
type_synonym u64 = "64 word"

text \<open>
  \<^verbatim>\<open>enum class WsOpcode : std::uint8_t\<close>: the enumeration has a fixed underlying type, and
  \<open>decode\<close> casts any 4-bit value into it, so an opcode is a byte and the enumerators are
  names of six of its values.
\<close>

type_synonym WsOpcode = u8

definition CONTINUATION :: WsOpcode where "CONTINUATION = 0x0"
definition TEXT :: WsOpcode where "TEXT = 0x1"
definition BINARY :: WsOpcode where "BINARY = 0x2"
definition CLOSE :: WsOpcode where "CLOSE = 0x8"
definition PING :: WsOpcode where "PING = 0x9"
definition PONG :: WsOpcode where "PONG = 0xA"

record WsFrame =
  fin :: bool
  opcode :: WsOpcode
  payload :: "u8 list"

text \<open>
  \<open>WsFrame::encode\<close> (server to client, no masking). \<open>payload.size()\<close> is a \<open>size_t\<close>;
  the loop \<^verbatim>\<open>for (int i = 7; i >= 0; i--)\<close> runs over the indices 7, 6, ..., 0.
\<close>

definition encode :: "WsFrame \<Rightarrow> u8 list" where
  "encode frame =
     (let byte0 = (if fin frame then 0x80 else 0x00) OR opcode frame;
          sz = (word_of_nat (length (payload frame)) :: u64)
      in [byte0]
         @ (if sz \<le> 125 then [ucast sz]
            else if sz \<le> 65535 then
              [126, ucast (drop_bit 8 sz AND 0xFF), ucast (sz AND 0xFF)]
            else
              127 # map (\<lambda>i. ucast (drop_bit (i * 8) sz AND 0xFF)) (rev [0..<8]))
         @ payload frame)"

text \<open>
  The three results of \<open>WsFrame::decode\<close>: \<open>std::nullopt\<close>; a frame with the number of
  bytes consumed; and the run in which the test \<^verbatim>\<open>size < offset + length\<close> lets a declared
  length through that is larger than what the buffer holds after \<open>offset\<close>, so that
  \<^verbatim>\<open>frame.payload.resize(length)\<close> is called with that length (and the copy loop would
  index the buffer past its end).
\<close>

datatype decode_result =
  Nullopt
  | Decoded WsFrame u64
  | Resize_Unchecked u64

text \<open>
  The last section of \<open>decode\<close> (``Payload''): the bounds test in 64-bit arithmetic, then the
  copy loop \<^verbatim>\<open>frame.payload[i] = data[offset + i] ^ mask[i % 4]\<close> for \<open>i < length\<close>.
\<close>

definition decode_payload ::
  "u8 list \<Rightarrow> u64 \<Rightarrow> bool \<Rightarrow> WsOpcode \<Rightarrow> u8 list \<Rightarrow> u64 \<Rightarrow> u64 \<Rightarrow> decode_result" where
  "decode_payload data size_w fin_v opcode_v mask_v len offset =
     (if size_w < offset + len then Nullopt
      else if length data < unat offset + unat len then Resize_Unchecked len
      else Decoded
        \<lparr>fin = fin_v, opcode = opcode_v,
         payload = map (\<lambda>i. data ! unat (offset + word_of_nat i) XOR mask_v ! (i mod 4))
                     [0..<unat len]\<rparr>
        (offset + len))"

text \<open>The section ``Masking key'': four more bytes when the MASK bit is set.\<close>

definition decode_mask ::
  "u8 list \<Rightarrow> u64 \<Rightarrow> bool \<Rightarrow> WsOpcode \<Rightarrow> bool \<Rightarrow> u64 \<Rightarrow> u64 \<Rightarrow> decode_result" where
  "decode_mask data size_w fin_v opcode_v masked len offset =
     (if masked then
        (if size_w < offset + 4 then Nullopt
         else decode_payload data size_w fin_v opcode_v
                (map (\<lambda>k. data ! (unat offset + k)) [0..<4]) len (offset + 4))
      else decode_payload data size_w fin_v opcode_v [0, 0, 0, 0] len offset)"

text \<open>
  \<open>WsFrame::decode(data, size)\<close>; the buffer is the list \<open>data\<close> and \<open>size\<close> its length as a
  \<open>size_t\<close>. The 64-bit length is read by the loop
  \<^verbatim>\<open>length = (length << 8) | data[offset + i]\<close> for \<open>i = 0, ..., 7\<close>.
\<close>

definition decode :: "u8 list \<Rightarrow> decode_result" where
  "decode data =
     (let size_w = (word_of_nat (length data) :: u64) in
      if size_w < 2 then Nullopt
      else
        let fin_v = (data ! 0 AND 0x80 \<noteq> 0);
            opcode_v = data ! 0 AND 0x0F;
            masked = (data ! 1 AND 0x80 \<noteq> 0);
            len = (ucast (data ! 1 AND 0x7F) :: u64);
            offset = (2 :: u64)
        in if len = 126 then
             (if size_w < offset + 2 then Nullopt
              else decode_mask data size_w fin_v opcode_v masked
                     (push_bit 8 (ucast (data ! unat offset)) OR ucast (data ! unat (offset + 1)))
                     (offset + 2))
           else if len = 127 then
             (if size_w < offset + 8 then Nullopt
              else decode_mask data size_w fin_v opcode_v masked
                     (foldl (\<lambda>l i. push_bit 8 l OR ucast (data ! (unat offset + i))) 0 [0..<8])
                     (offset + 8))
           else decode_mask data size_w fin_v opcode_v masked len offset)"

subsection \<open>Frames on the wire, masked or not\<close>

text \<open>
  The four bytes of a masking key; \<open>decode\<close> copies them into \<open>mask[4]\<close>, the page's
  \<open>encodeFrame\<close> draws them with \<open>crypto.getRandomValues\<close>.
\<close>

type_synonym mask_key = "u8 \<times> u8 \<times> u8 \<times> u8"

fun key_bytes :: "mask_key \<Rightarrow> u8 list" where
  "key_bytes (a, b, c, d) = [a, b, c, d]"

text \<open>
  The layout that \<open>decode\<close> reads (``client to server, masked''): the header that \<open>encode\<close>
  writes, with the MASK bit of the second byte set when a key follows; then the key; then the
  payload, each byte XORed with the key byte at its index modulo 4. Without a key it is the
  output of \<open>encode\<close>; with a key it is what the page's \<open>encodeFrame\<close> sends for payloads
  of up to 65535 bytes (both are proved below).
\<close>

definition wire_header :: "WsFrame \<Rightarrow> bool \<Rightarrow> u8 list" where
  "wire_header frame masked =
     (let byte0 = (if fin frame then 0x80 else 0x00) OR opcode frame;
          sz = (word_of_nat (length (payload frame)) :: u64);
          mask_bit = (if masked then 0x80 else 0x00 :: u8)
      in byte0 #
         (if sz \<le> 125 then [mask_bit OR ucast sz]
          else if sz \<le> 65535 then
            [mask_bit OR 126, ucast (drop_bit 8 sz AND 0xFF), ucast (sz AND 0xFF)]
          else
            (mask_bit OR 127) # map (\<lambda>i. ucast (drop_bit (i * 8) sz AND 0xFF)) (rev [0..<8])))"

definition wire_frame :: "WsFrame \<Rightarrow> mask_key option \<Rightarrow> u8 list" where
  "wire_frame frame key =
     (case key of
        None \<Rightarrow> wire_header frame False @ payload frame
      | Some k \<Rightarrow>
          wire_header frame True @ key_bytes k
          @ map (\<lambda>i. payload frame ! i XOR key_bytes k ! (i mod 4))
              [0..<length (payload frame)])"

text \<open>
  The page's \<open>encodeFrame(opcode, payload)\<close> (JavaScript in \<open>html_template\<close>), with the key it
  draws as a third argument. The result is a \<open>Uint8Array\<close>, so every stored value is taken
  modulo 256. \<open>len\<close> is a Number; \<^verbatim>\<open>len >> (i * 8)\<close> converts it to a 32-bit signed integer and
  shifts by the count modulo 32.
\<close>

definition encodeFrame :: "WsOpcode \<Rightarrow> u8 list \<Rightarrow> mask_key \<Rightarrow> u8 list" where
  "encodeFrame opcode_v payloadBytes mask_v =
     (let len = length payloadBytes;
          len32 = (word_of_nat len :: 32 word)
      in [0x80 OR opcode_v]
         @ (if len \<le> 125 then [0x80 OR word_of_nat len]
            else if len \<le> 65535 then
              [0x80 OR 126, ucast (signed_drop_bit 8 len32 AND 0xFF), ucast (len32 AND 0xFF)]
            else
              (0x80 OR 127)
              # map (\<lambda>i. ucast (signed_drop_bit ((i * 8) mod 32) len32 AND 0xFF))
                  (rev [0..<8]))
         @ key_bytes mask_v
         @ map (\<lambda>i. payloadBytes ! i XOR key_bytes mask_v ! (i mod 4)) [0..<len])"

section \<open>The frame queue\<close>

text \<open>
  \<open>class FrameQueue\<close>: a \<open>std::deque<WsFrame>\<close> and the flag \<open>m_closed\<close>, guarded by a mutex
  and a condition variable. The model is the queue as one thread after the other sees it
  under the mutex: a call runs to its end before the next one starts.
\<close>

record FrameQueue =
  m_queue :: "WsFrame list"
  m_closed :: bool

text \<open>The queue as its member initialisers leave it: no frame, \<open>m_closed{false}\<close>.\<close>

definition FrameQueue_new :: FrameQueue where
  "FrameQueue_new = \<lparr>m_queue = [], m_closed = False\<rparr>"

definition push :: "WsFrame \<Rightarrow> FrameQueue \<Rightarrow> FrameQueue" where
  "push frame q = q\<lparr>m_queue := m_queue q @ [frame]\<rparr>"

definition close :: "FrameQueue \<Rightarrow> FrameQueue" where
  "close q = q\<lparr>m_closed := True\<rparr>"

definition reset :: "FrameQueue \<Rightarrow> FrameQueue" where
  "reset q = q\<lparr>m_queue := [], m_closed := False\<rparr>"

text \<open>
  \<open>wait_pop(timeout)\<close>. \<^verbatim>\<open>m_cv.wait_for(lock, timeout, pred)\<close> returns the value of the predicate
  \<^verbatim>\<open>!m_queue.empty() || m_closed\<close> when the wait ends; the queue given here is the queue at
  that moment, with every frame pushed during the wait already in it. When the predicate is
  false the timeout has elapsed.
\<close>

definition wait_pop :: "FrameQueue \<Rightarrow> WsFrame option \<times> FrameQueue" where
  "wait_pop q =
     (if \<not> (m_queue q \<noteq> [] \<or> m_closed q) then (None, q)
      else if m_queue q = [] then (None, q)
      else (Some (hd (m_queue q)), q\<lparr>m_queue := tl (m_queue q)\<rparr>))"

text \<open>Calling \<open>push\<close> for each frame of a list in turn, and calling \<open>wait_pop\<close> \<open>n\<close> times.\<close>

definition push_all :: "WsFrame list \<Rightarrow> FrameQueue \<Rightarrow> FrameQueue" where
  "push_all frames q = fold push frames q"

fun wait_pops :: "nat \<Rightarrow> FrameQueue \<Rightarrow> WsFrame option list \<times> FrameQueue" where
  "wait_pops 0 q = ([], q)"
| "wait_pops (Suc n) q =
     (let (r, q') = wait_pop q; (rs, q'') = wait_pops n q' in (r # rs, q''))"

section \<open>The inbound delivery handler\<close>

text \<open>
  The handler of \<open>saucer::webview::event::binary_message\<close> in \<open>start\<close>: one call of
  \<open>WsFrame::decode\<close> on the delivered bytes and, when it gives a frame, one \<open>push\<close> to
  \<open>g_from_client\<close>. When \<open>decode\<close> reaches \<open>resize\<close> with an unchecked length the handler does
  not return normally.
\<close>

datatype handler_error = Payload_Resize u64

definition binary_message :: "u8 list \<Rightarrow> FrameQueue \<Rightarrow> handler_error + FrameQueue" where
  "binary_message data g_from_client_v =
     (case decode data of
        Nullopt \<Rightarrow> Inr g_from_client_v
      | Decoded frame consumed \<Rightarrow> Inr (push frame g_from_client_v)
      | Resize_Unchecked n \<Rightarrow> Inl (Payload_Resize n))"

section \<open>The session thread\<close>

text \<open>
  The global state that \<open>websocket_server_thread\<close> reads and writes, together with what it
  does to its \<open>stream_writer\<close>: the buffers handed to \<open>writer.write\<close> in order, whether
  \<open>writer.finish()\<close> was called, and whether \<open>g_app->quit()\<close> was called. The counters are
  \<open>std::atomic<int>\<close>, whose increment wraps around. Output to \<open>stderr\<close> is left out.
\<close>

type_synonym atomic_int = "32 word"

record Session =
  g_from_client :: FrameQueue
  g_running :: bool
  g_connected :: bool
  g_test_mode :: bool
  g_test_result :: atomic_int
  g_pings_sent :: atomic_int
  g_pongs_received :: atomic_int
  g_app :: bool
  written :: "u8 list list"
  finished :: bool
  app_quit :: bool

text \<open>
  What the other threads do while the session thread is at one turn of a loop: the value
  \<open>writer.valid()\<close> gives at the loop's head, and the frames the delivery handler pushes to
  \<open>g_from_client\<close> before this turn's \<open>wait_pop\<close> returns.
\<close>

record round_env =
  writer_valid :: bool
  arrivals :: "WsFrame list"

text \<open>
  \<^verbatim>\<open>std::format("ping-{}", i)\<close>: the decimal digits of \<open>i\<close> after the prefix; the payload is the
  string's bytes, and comparing the strings compares the bytes.
\<close>

fun decimal :: "nat \<Rightarrow> string" where
  "decimal n =
     (if n < 10 then [char_of (48 + n)]
      else decimal (n div 10) @ [char_of (48 + n mod 10)])"

definition ping_data :: "nat \<Rightarrow> u8 list" where
  "ping_data i = map of_char (''ping-'' @ decimal i)"

definition PING_COUNT :: nat where
  "PING_COUNT = 3"

text \<open>
  The frames the thread builds: \<^verbatim>\<open>WsFrame ping{.opcode = PING, .payload = ...}\<close> in round
  \<open>i\<close>, and \<^verbatim>\<open>close_frame{.opcode = CLOSE, .payload = {0x03, 0xE8}}\<close>; \<open>fin\<close> keeps its
  default \<open>true\<close>.
\<close>

definition ping_frame :: "nat \<Rightarrow> WsFrame" where
  "ping_frame i = \<lparr>fin = True, opcode = PING, payload = ping_data i\<rparr>"

definition close_frame :: WsFrame where
  "close_frame = \<lparr>fin = True, opcode = CLOSE, payload = [0x03, 0xE8]\<rparr>"


text \<open>
  The body of the test-mode loop for round \<open>i\<close>. The first component of the result is
  \<open>False\<close> where the source leaves the loop with \<open>break\<close>.
\<close>

definition test_round :: "nat \<Rightarrow> round_env \<Rightarrow> Session \<Rightarrow> bool \<times> Session" where
  "test_round i e s =
     (let ping = ping_frame i;
          s1 = s\<lparr>written := written s @ [encode ping], g_pings_sent := g_pings_sent s + 1\<rparr>;
          (response, q) = wait_pop (push_all (arrivals e) (g_from_client s1));
          s2 = s1\<lparr>g_from_client := q\<rparr>
      in case response of
           None \<Rightarrow> (False, s2\<lparr>g_test_result := 1\<rparr>)
         | Some r \<Rightarrow>
             if opcode r \<noteq> PONG then (False, s2\<lparr>g_test_result := 1\<rparr>)
             else if payload r \<noteq> ping_data i then (False, s2\<lparr>g_test_result := 1\<rparr>)
             else
               let s3 = s2\<lparr>g_pongs_received := g_pongs_received s2 + 1\<rparr>
               in (True, if i = PING_COUNT - 1 then s3\<lparr>g_test_result := 0\<rparr> else s3))"

text \<open>\<^verbatim>\<open>for (int i = 0; i < PING_COUNT && g_running && writer.valid(); i++)\<close>, from round \<open>i\<close> on.\<close>

function test_loop :: "(nat \<Rightarrow> round_env) \<Rightarrow> nat \<Rightarrow> Session \<Rightarrow> Session" where
  "test_loop env i s =
     (if i < PING_COUNT \<and> g_running s \<and> writer_valid (env i) then
        (case test_round i (env i) s of
           (True, s') \<Rightarrow> test_loop env (i + 1) s'
         | (False, s') \<Rightarrow> s')
      else s)"
  by pat_completeness auto
termination
  by (relation "measure (\<lambda>(env, i, s). PING_COUNT - i)") auto

declare test_loop.simps [simp del]

text \<open>The test-mode branch after the loop: the CLOSE frame, then the shutdown.\<close>

definition test_mode :: "(nat \<Rightarrow> round_env) \<Rightarrow> Session \<Rightarrow> Session" where
  "test_mode env s =
     (let s1 = test_loop env 0 s;
          s2 = s1\<lparr>written := written s1 @ [encode close_frame]\<rparr>;
          s3 = s2\<lparr>g_running := False, finished := True\<rparr>
      in if g_app s3 then s3\<lparr>app_quit := True\<rparr> else s3)"

text \<open>
  The body of the interactive loop; the first component of the result is \<open>False\<close> where the
  source leaves the loop with \<open>break\<close>.
\<close>

definition interactive_round :: "round_env \<Rightarrow> Session \<Rightarrow> bool \<times> Session" where
  "interactive_round e s =
     (let (frame, q) = wait_pop (push_all (arrivals e) (g_from_client s));
          s1 = s\<lparr>g_from_client := q\<rparr>
      in case frame of
           None \<Rightarrow> (True, s1)
         | Some f \<Rightarrow>
             if opcode f = TEXT \<or> opcode f = BINARY then
               (True, s1\<lparr>written := written s1 @ [encode f]\<rparr>)
             else if opcode f = PONG then
               (True, s1\<lparr>g_pongs_received := g_pongs_received s1 + 1\<rparr>)
             else if opcode f = CLOSE then (False, s1)
             else (True, s1))"

text \<open>
  \<^verbatim>\<open>while (g_running && writer.valid())\<close>, from turn \<open>k\<close> on. The loop need not end; the
  first argument bounds the number of times its head is evaluated, and \<open>None\<close> says that the
  loop is still running after that many.
\<close>

fun interactive_loop :: "nat \<Rightarrow> (nat \<Rightarrow> round_env) \<Rightarrow> nat \<Rightarrow> Session \<Rightarrow> Session option" where
  "interactive_loop 0 env k s = None"
| "interactive_loop (Suc fuel) env k s =
     (if g_running s \<and> writer_valid (env k) then
        (case interactive_round (env k) s of
           (True, s') \<Rightarrow> interactive_loop fuel env (Suc k) s'
         | (False, s') \<Rightarrow> Some s')
      else Some s)"

text \<open>The interactive branch: the loop, then the CLOSE frame and the end of the session.\<close>

definition interactive_mode :: "nat \<Rightarrow> (nat \<Rightarrow> round_env) \<Rightarrow> Session \<Rightarrow> Session option" where
  "interactive_mode fuel env s =
     (case interactive_loop fuel env 0 s of
        None \<Rightarrow> None
      | Some s1 \<Rightarrow>
          Some (s1\<lparr>written := written s1 @ [encode close_frame],
                   finished := True, g_connected := False\<rparr>))"

text \<open>\<open>websocket_server_thread(writer)\<close>.\<close>

definition websocket_server_thread ::
  "nat \<Rightarrow> (nat \<Rightarrow> round_env) \<Rightarrow> Session \<Rightarrow> Session option" where
  "websocket_server_thread fuel env s =
     (let s0 = s\<lparr>g_connected := True\<rparr>
      in if g_test_mode s0 then Some (test_mode env s0)
         else interactive_mode fuel env s0)"

section \<open>Sessions used as examples\<close>






text \<open>
  An interactive session: the peer sends the text \<open>hello\<close>, then a PONG, then a CLOSE, and
  the writer is no longer valid after that.
\<close>

definition hello_frame :: WsFrame where
  "hello_frame = \<lparr>fin = True, opcode = TEXT, payload = map of_char ''hello''\<rparr>"




section \<open>Properties of the codec\<close>

subsection \<open>Bytes of the header\<close>

lemma mask_0x0F: "(0x0F::u8) = mask 4"
  by (simp add: mask_eq_decr_exp)
lemma mask_0x7F: "(0x7F::u8) = mask 7"
  by (simp add: mask_eq_decr_exp)
lemma bit_0x80_int: "bit (0x80::int) n \<longleftrightarrow> n = 7"
  using bit_exp_iff[of 7 n, where 'a = int] by (auto simp: bit_simps)

lemma and_0x80_bit7: "((w::u8) AND 0x80 \<noteq> 0) = bit w 7"
  using and_exp_eq_0_iff_not_bit[of w 7] by simp

lemma opcode_bits: "(opc::u8) < 16 \<Longrightarrow> bit opc n \<Longrightarrow> n < 4"
proof -
  assume b: "bit opc n"
  assume "opc < 16"
  then have "opc < 2 ^ 4" by simp
  then have "opc AND mask 4 = opc" by (rule less_mask_eq)
  with b have "bit (opc AND mask 4) n" by simp
  then show ?thesis by (simp add: bit_simps)
qed

lemma byte0_opcode: "opc < 16 \<Longrightarrow> ((if f then 0x80 else 0x00) OR opc) AND 0x0F = (opc::u8)"
  apply (subst mask_0x0F)
  apply (rule bit_word_eqI)
  apply (auto simp add: bit_simps bit_0x80_int dest: opcode_bits)
  done

lemma byte0_fin: "opc < 16 \<Longrightarrow> (((if f then 0x80 else 0x00) OR opc) AND 0x80 \<noteq> (0::u8)) = f"
  apply (subst and_0x80_bit7)
  apply (auto simp add: bit_simps bit_0x80_int dest: opcode_bits)
  done

lemma le_125_bits: "(sz::u64) \<le> 125 \<Longrightarrow> bit sz n \<Longrightarrow> n < 7"
proof -
  assume b: "bit sz n"
  assume "sz \<le> 125"
  then have "sz < 2 ^ 7" by (simp add: word_le_nat_alt word_less_nat_alt)
  then have "sz AND mask 7 = sz" by (rule less_mask_eq)
  with b have "bit (sz AND mask 7) n" by simp
  then show ?thesis by (simp add: bit_simps)
qed

lemma byte1_len: "(sz::u64) \<le> 125 \<Longrightarrow> (ucast ((ucast sz :: u8) AND 0x7F) :: u64) = sz"
  apply (subst mask_0x7F)
  apply (rule bit_word_eqI)
  apply (auto simp add: bit_simps dest: le_125_bits)
  done

lemma byte1_mask: "(sz::u64) \<le> 125 \<Longrightarrow> ((ucast sz :: u8) AND 0x80 \<noteq> 0) = False"
  apply (subst and_0x80_bit7)
  apply (auto simp add: bit_simps dest: le_125_bits)
  done

lemma le_65535_bits: "(sz::u64) \<le> 65535 \<Longrightarrow> bit sz n \<Longrightarrow> n < 16"
proof -
  assume b: "bit sz n"
  assume "sz \<le> 65535"
  then have "sz < 2 ^ 16" by (simp add: word_le_nat_alt word_less_nat_alt)
  then have "sz AND mask 16 = sz" by (rule less_mask_eq)
  with b have "bit (sz AND mask 16) n" by simp
  then show ?thesis by (simp add: bit_simps)
qed

lemma mask_0xFF: "(0xFF::u64) = mask 8"
  by (simp add: mask_eq_decr_exp)

lemma be16_roundtrip: "sz \<le> 65535 \<Longrightarrow> push_bit 8 (ucast (ucast (drop_bit 8 sz AND 0xFF :: u64) :: u8)) OR ucast (ucast (sz AND 0xFF :: u64) :: u8) = (sz :: u64)"
  apply (subst mask_0xFF)+
  apply (rule bit_word_eqI)
  apply (auto simp add: bit_simps dest: le_65535_bits)
  done



lemma unat_of_nat64: "n < 2 ^ 64 \<Longrightarrow> unat (word_of_nat n :: u64) = n"
  by (simp add: unat_of_nat)

lemma zero_mask_nth: "[0, 0, 0, 0 :: u8] ! (i mod 4) = 0"
proof -
  have "i mod 4 < 4" by simp
  then have "i mod 4 = 0 \<or> i mod 4 = 1 \<or> i mod 4 = 2 \<or> i mod 4 = 3" by arith
  then show ?thesis by auto
qed

lemma upt_8: "[0..<8] = [0, 1, 2, 3, 4, 5, 6, 7]"
  by (simp add: upt_rec)

lemma be_step:
  assumes "k' = k + 8"
  shows "push_bit 8 (drop_bit k' w) OR ucast (ucast (drop_bit k w AND 0xFF :: u64) :: u8) = drop_bit k (w :: u64)"
proof (rule bit_word_eqI)
  fix n
  assume n: "n < LENGTH(64)"
  show "bit (push_bit 8 (drop_bit k' w) OR ucast (ucast (drop_bit k w AND 0xFF :: u64) :: u8)) n
        = bit (drop_bit k w) n"
  proof (cases "n < 8")
    case True
    then show ?thesis by (simp add: mask_0xFF bit_simps)
  next
    case False
    then have "k' + n - 8 = k + n" using assms by simp
    with False n show ?thesis by (simp add: mask_0xFF bit_simps)
  qed
qed

lemma be_top: "ucast (ucast (drop_bit 56 w AND 0xFF :: u64) :: u8) = drop_bit 56 (w :: u64)"
  using be_step[of 64 56 w] by simp

lemma be64_roundtrip:
  "foldl (\<lambda>l i. push_bit 8 l OR ucast ((b0 # b1 # map (\<lambda>i. ucast (drop_bit (i * 8) sz AND 0xFF) :: u8) (rev [0..<8]) @ rest) ! (unat (2 :: u64) + i))) 0 [0..<8] = (sz :: u64)"
proof -
  have "foldl (\<lambda>l i. push_bit 8 l OR ucast ((b0 # b1 # map (\<lambda>i. ucast (drop_bit (i * 8) sz AND 0xFF) :: u8) (rev [0..<8]) @ rest) ! (unat (2 :: u64) + i))) 0 [0..<8]
    = push_bit 8 (push_bit 8 (push_bit 8 (push_bit 8 (push_bit 8 (push_bit 8 (push_bit 8
        (ucast (ucast (drop_bit 56 sz AND 0xFF :: u64) :: u8))
        OR ucast (ucast (drop_bit 48 sz AND 0xFF :: u64) :: u8))
        OR ucast (ucast (drop_bit 40 sz AND 0xFF :: u64) :: u8))
        OR ucast (ucast (drop_bit 32 sz AND 0xFF :: u64) :: u8))
        OR ucast (ucast (drop_bit 24 sz AND 0xFF :: u64) :: u8))
        OR ucast (ucast (drop_bit 16 sz AND 0xFF :: u64) :: u8))
        OR ucast (ucast (drop_bit 8 sz AND 0xFF :: u64) :: u8))
        OR ucast (ucast (drop_bit 0 sz AND 0xFF :: u64) :: u8)"
    by (simp add: upt_8)
  also have "\<dots> = drop_bit 0 sz"
    by (simp only: be_top be_step[of 56 48] be_step[of 48 40] be_step[of 40 32] be_step[of 32 24]
          be_step[of 24 16] be_step[of 16 8] be_step[of 8 0]
          semiring_norm)
  finally show ?thesis by simp
qed

subsection \<open>Decoding a frame on the wire\<close>

lemma byte1_len_masked:
  "(sz::u64) \<le> 125 \<Longrightarrow>
   (ucast (((if mb then 0x80 else 0x00) OR (ucast sz :: u8)) AND 0x7F) :: u64) = sz"
  apply (subst mask_0x7F)
  apply (rule bit_word_eqI)
  apply (auto simp add: bit_simps bit_0x80_int dest: le_125_bits)
  done

lemma byte1_mask_masked:
  "(sz::u64) \<le> 125 \<Longrightarrow>
   (((if mb then 0x80 else 0x00) OR (ucast sz :: u8)) AND 0x80 \<noteq> 0) = mb"
  apply (subst and_0x80_bit7)
  apply (auto simp add: bit_simps bit_0x80_int dest: le_125_bits)
  done

lemma xor_key_nth:
  "(p XOR k) XOR k = (p :: u8)"
  by (simp add: xor.assoc)

lemma decode_payload_xor:
  assumes len: "length (hdr @ map (\<lambda>i. p ! i XOR mk ! (i mod 4)) [0..<length p] @ rest) < 2 ^ 64"
  shows "decode_payload (hdr @ map (\<lambda>i. p ! i XOR mk ! (i mod 4)) [0..<length p] @ rest)
           (word_of_nat (length (hdr @ map (\<lambda>i. p ! i XOR mk ! (i mod 4)) [0..<length p] @ rest)))
           f opc mk (word_of_nat (length p)) (word_of_nat (length hdr))
         = Decoded \<lparr>fin = f, opcode = opc, payload = p\<rparr> (word_of_nat (length hdr + length p))"
proof -
  let ?q = "map (\<lambda>i. p ! i XOR mk ! (i mod 4)) [0..<length p]"
  let ?data = "hdr @ ?q @ rest"
  let ?off = "word_of_nat (length hdr) :: u64"
  let ?len = "word_of_nat (length p) :: u64"
  have lq: "length ?q = length p" by simp
  from len have h: "length hdr < 2 ^ 64" and n: "length p < 2 ^ 64"
    and hn: "length hdr + length p < 2 ^ 64" by simp_all
  have sum: "?off + ?len = word_of_nat (length hdr + length p)" by simp
  have u_off: "unat ?off = length hdr" using h by (rule unat_of_nat64)
  have u_len: "unat ?len = length p" using n by (rule unat_of_nat64)
  have u_sum: "unat (?off + ?len) = length hdr + length p"
    unfolding sum using hn by (rule unat_of_nat64)
  have u_size: "unat (word_of_nat (length ?data) :: u64) = length ?data"
    using len by (rule unat_of_nat64)
  have c1: "\<not> (word_of_nat (length ?data) :: u64) < ?off + ?len"
    unfolding word_less_nat_alt u_sum u_size by simp
  have c2: "\<not> length ?data < unat ?off + unat ?len"
    unfolding u_off u_len by simp
  have idx: "unat (?off + word_of_nat i) = length hdr + i" if "i < length p" for i
  proof -
    have "?off + word_of_nat i = (word_of_nat (length hdr + i) :: u64)" by simp
    moreover have "length hdr + i < 2 ^ 64" using that hn by simp
    ultimately show ?thesis by (simp only: unat_of_nat64)
  qed
  have pl: "map (\<lambda>i. ?data ! unat (?off + word_of_nat i) XOR mk ! (i mod 4)) [0..<unat ?len] = p"
    unfolding u_len
    by (rule nth_equalityI) (simp_all add: idx nth_append xor_key_nth)
  show ?thesis
    unfolding decode_payload_def by (simp only: c1[unfolded sum] c1 c2 pl sum if_False)
qed

lemma xor_zero_mask:
  "map (\<lambda>i. p ! i XOR [0, 0, 0, 0 :: u8] ! (i mod 4)) [0..<length p] = p"
  by (rule nth_equalityI) (simp_all add: zero_mask_nth)

lemma decode_header_small:
  assumes sz: "sz \<le> 125"
    and len: "length (b0 # ((if mb then 0x80 else 0x00) OR ucast sz) # tail) < 2 ^ 64"
      (is "length ?data < _")
  shows "decode ?data
         = decode_mask ?data (word_of_nat (length ?data))
             (b0 AND 0x80 \<noteq> 0) (b0 AND 0x0F) mb sz (word_of_nat 2)"
proof -
  have size2: "\<not> (word_of_nat (length ?data) :: u64) < 2"
    unfolding word_less_nat_alt unat_of_nat64[OF len] by simp
  have l126: "sz \<noteq> 126" and l127: "sz \<noteq> 127"
    using sz by auto
  show ?thesis
    unfolding decode_def Let_def
    using size2 l126 l127
    by (simp add: byte1_len_masked[OF sz] byte1_mask_masked[OF sz])
qed

lemma byte1_126: "ucast (((if mb then 0x80 else 0x00) OR 126 :: u8) AND 0x7F) = (126 :: u64)"
  "(((if mb then 0x80 else 0x00) OR 126 :: u8) AND 0x80 \<noteq> 0) = mb"
  by (cases mb; simp)+

lemma byte1_127: "ucast (((if mb then 0x80 else 0x00) OR 127 :: u8) AND 0x7F) = (127 :: u64)"
  "(((if mb then 0x80 else 0x00) OR 127 :: u8) AND 0x80 \<noteq> 0) = mb"
  by (cases mb; simp)+

lemma decode_header_medium:
  assumes sz: "sz \<le> 65535"
    and len: "length (b0 # ((if mb then 0x80 else 0x00) OR 126)
                # ucast (drop_bit 8 sz AND 0xFF) # ucast (sz AND 0xFF) # tail) < 2 ^ 64"
      (is "length ?data < _")
  shows "decode ?data
         = decode_mask ?data (word_of_nat (length ?data))
             (b0 AND 0x80 \<noteq> 0) (b0 AND 0x0F) mb sz (word_of_nat 4)"
proof -
  have size2: "\<not> (word_of_nat (length ?data) :: u64) < 2"
    and size4: "\<not> (word_of_nat (length ?data) :: u64) < 2 + 2"
    unfolding word_less_nat_alt unat_of_nat64[OF len] by simp_all
  show ?thesis
    unfolding decode_def Let_def
    using size2 size4
    by (simp add: be16_roundtrip[OF sz] byte1_126)
qed

lemma decode_header_large:
  assumes len: "length (b0 # ((if mb then 0x80 else 0x00) OR 127)
                # map (\<lambda>i. ucast (drop_bit (i * 8) sz AND 0xFF) :: u8) (rev [0..<8]) @ tail) < 2 ^ 64"
      (is "length ?data < _")
  shows "decode ?data
         = decode_mask ?data (word_of_nat (length ?data))
             (b0 AND 0x80 \<noteq> 0) (b0 AND 0x0F) mb (sz :: u64) (word_of_nat 10)"
proof -
  have size2: "\<not> (word_of_nat (length ?data) :: u64) < 2"
    and size10: "\<not> (word_of_nat (length ?data) :: u64) < 2 + 8"
    unfolding word_less_nat_alt unat_of_nat64[OF len] by simp_all
  have ext: "foldl (\<lambda>l i. push_bit 8 l OR ucast (?data ! (unat (2 :: u64) + i))) 0 [0..<8] = sz"
    by (rule be64_roundtrip)
  show ?thesis
    unfolding decode_def Let_def ext
    using size2 size10
    by (simp add: byte1_127)
qed

lemma decode_wire_header:
  assumes opc: "opcode f < 16" and n: "length (payload f) < 2 ^ 64"
    and len: "length (wire_header f mb @ tail) < 2 ^ 64"
  shows "decode (wire_header f mb @ tail)
         = decode_mask (wire_header f mb @ tail)
             (word_of_nat (length (wire_header f mb @ tail)))
             (fin f) (opcode f) mb (word_of_nat (length (payload f)))
             (word_of_nat (length (wire_header f mb)))"
proof -
  let ?sz = "word_of_nat (length (payload f)) :: u64"
  let ?b0 = "(if fin f then 0x80 else 0x00) OR opcode f"
  let ?mbit = "(if mb then 0x80 else 0x00) :: u8"
  consider "length (payload f) \<le> 125"
    | "125 < length (payload f)" "length (payload f) \<le> 65535"
    | "65535 < length (payload f)"
    by linarith
  then show ?thesis
  proof cases
    case 1
    then have sz_le: "?sz \<le> 125"
      by (simp add: word_le_nat_alt unat_of_nat64)
    then have h: "wire_header f mb = [?b0, ?mbit OR ucast ?sz]"
      by (simp add: wire_header_def Let_def)
    show ?thesis
      using decode_header_small[OF sz_le, of ?b0 mb tail] len
      unfolding h by (simp add: byte0_opcode[OF opc] byte0_fin[OF opc])
  next
    case 2
    then have sz_gt: "\<not> ?sz \<le> 125" and sz_le: "?sz \<le> 65535"
      by (simp_all add: word_le_nat_alt unat_of_nat64)
    then have h: "wire_header f mb
        = [?b0, ?mbit OR 126, ucast (drop_bit 8 ?sz AND 0xFF), ucast (?sz AND 0xFF)]"
      by (simp add: wire_header_def Let_def)
    show ?thesis
      using decode_header_medium[OF sz_le, of ?b0 mb tail] len
      unfolding h by (simp add: byte0_opcode[OF opc] byte0_fin[OF opc])
  next
    case 3
    with n have sz_gt: "\<not> ?sz \<le> 125" and sz_gt': "\<not> ?sz \<le> 65535"
      by (simp_all add: word_le_nat_alt unat_of_nat64)
    then have h: "wire_header f mb
        = ?b0 # (?mbit OR 127)
          # map (\<lambda>i. ucast (drop_bit (i * 8) ?sz AND 0xFF) :: u8) (rev [0..<8])"
      by (simp add: wire_header_def Let_def)
    show ?thesis
      using decode_header_large[of ?b0 mb ?sz tail] len
      unfolding h by (simp add: byte0_opcode[OF opc] byte0_fin[OF opc])
  qed
qed

lemma length_key_bytes: "length (key_bytes k) = 4"
  by (cases k) simp

lemma upt_4: "[0..<4] = [0, 1, 2, 3]"
  by (simp add: upt_rec)

lemma decode_mask_key:
  assumes len: "length (hdr @ key_bytes k @ tail) < 2 ^ 64" (is "length ?data < _")
  shows "decode_mask ?data (word_of_nat (length ?data)) f opc True n (word_of_nat (length hdr))
         = decode_payload ?data (word_of_nat (length ?data)) f opc (key_bytes k) n
             (word_of_nat (length (hdr @ key_bytes k)))"
proof -
  obtain a b c d where k: "k = (a, b, c, d)" by (cases k)
  from len have h: "length hdr < 2 ^ 64" and h4: "length hdr + 4 < 2 ^ 64"
    by (simp_all add: length_key_bytes)
  have u_off: "unat (word_of_nat (length hdr) :: u64) = length hdr"
    using h by (rule unat_of_nat64)
  have "(word_of_nat (length hdr) + 4 :: u64) = word_of_nat (length hdr + 4)" by simp
  then have u4: "unat (word_of_nat (length hdr) + 4 :: u64) = length hdr + 4"
    using h4 by (simp only: unat_of_nat64)
  have c: "\<not> (word_of_nat (length ?data) :: u64) < word_of_nat (length hdr) + 4"
    unfolding word_less_nat_alt u4 unat_of_nat64[OF len] by (simp add: length_key_bytes)
  have m: "map (\<lambda>j. ?data ! (unat (word_of_nat (length hdr) :: u64) + j)) [0..<4] = key_bytes k"
    unfolding u_off k by (simp add: upt_4 nth_append)
  have o: "(word_of_nat (length (hdr @ key_bytes k)) :: u64) = word_of_nat (length hdr) + 4"
    by (simp add: length_key_bytes)
  show ?thesis
    unfolding decode_mask_def o using c by (simp only: m if_True if_False)
qed

lemma length_payload_le_wire:
  "length (payload f) \<le> length (wire_frame f key)"
  by (cases key) (simp_all add: wire_frame_def)

lemma decode_wire_frame_append:
  assumes opc: "opcode f < 16" and len: "length (wire_frame f key @ rest) < 2 ^ 64"
  shows "decode (wire_frame f key @ rest) = Decoded f (word_of_nat (length (wire_frame f key)))"
proof -
  let ?p = "payload f"
  have n: "length ?p < 2 ^ 64"
    using len length_payload_le_wire[of f key] by simp
  show ?thesis
  proof (cases key)
    case None
    let ?H = "wire_header f False"
    have w: "wire_frame f key = ?H @ ?p"
      using None by (simp add: wire_frame_def)
    let ?data = "?H @ ?p @ rest"
    have l: "length ?data < 2 ^ 64" using len unfolding w by simp
    have "decode ?data = decode_mask ?data (word_of_nat (length ?data)) (fin f) (opcode f)
            False (word_of_nat (length ?p)) (word_of_nat (length ?H))"
      using opc n l by (rule decode_wire_header)
    also have "\<dots> = decode_payload ?data (word_of_nat (length ?data)) (fin f) (opcode f)
            [0, 0, 0, 0] (word_of_nat (length ?p)) (word_of_nat (length ?H))"
      by (simp add: decode_mask_def)
    also have "\<dots> = Decoded \<lparr>fin = fin f, opcode = opcode f, payload = ?p\<rparr>
                      (word_of_nat (length ?H + length ?p))"
      using decode_payload_xor[of ?H ?p "[0, 0, 0, 0]" rest "fin f" "opcode f"] l
      by (simp only: xor_zero_mask)
    finally show ?thesis unfolding w by simp
  next
    case (Some k)
    let ?H = "wire_header f True"
    let ?Q = "map (\<lambda>i. ?p ! i XOR key_bytes k ! (i mod 4)) [0..<length ?p]"
    have w: "wire_frame f key = ?H @ key_bytes k @ ?Q"
      using Some by (simp add: wire_frame_def)
    let ?data = "?H @ key_bytes k @ ?Q @ rest"
    have l: "length ?data < 2 ^ 64" using len unfolding w by simp
    have l': "length ((?H @ key_bytes k) @ ?Q @ rest) < 2 ^ 64" using l by simp
    have "decode ?data = decode_mask ?data (word_of_nat (length ?data)) (fin f) (opcode f)
            True (word_of_nat (length ?p)) (word_of_nat (length ?H))"
      using opc n l by (rule decode_wire_header)
    also have "\<dots> = decode_payload ?data (word_of_nat (length ?data)) (fin f) (opcode f)
            (key_bytes k) (word_of_nat (length ?p)) (word_of_nat (length (?H @ key_bytes k)))"
      using l by (rule decode_mask_key)
    also have "\<dots> = Decoded \<lparr>fin = fin f, opcode = opcode f, payload = ?p\<rparr>
                      (word_of_nat (length (?H @ key_bytes k) + length ?p))"
      using decode_payload_xor[OF l', of "fin f" "opcode f"] by simp
    finally show ?thesis unfolding w by simp
  qed
qed

lemma wire_frame_None: "wire_frame f None = encode f"
  by (simp add: wire_frame_def wire_header_def encode_def Let_def)

lemma decode_encode_append:
  assumes "opcode f < 16" and "length (encode f @ rest) < 2 ^ 64"
  shows "decode (encode f @ rest) = Decoded f (word_of_nat (length (encode f)))"
  using decode_wire_frame_append[of f None rest] assms by (simp add: wire_frame_None)

subsection \<open>The page's encoder\<close>

text \<open>
  For payloads of up to 65535 bytes \<open>encodeFrame\<close> writes the masked wire frame with \<open>fin\<close>
  set. (Above that, the shift count of \<^verbatim>\<open>len >> (i * 8)\<close> is taken modulo 32 and the eight
  length bytes are not the length.)
\<close>

lemma mask_0xFF_32: "(0xFF :: 32 word) = mask 8"
  by (simp add: mask_eq_decr_exp)

lemma js_byte_hi:
  "(ucast (signed_drop_bit 8 (word_of_nat n :: 32 word) AND 0xFF) :: u8)
   = ucast (drop_bit 8 (word_of_nat n :: u64) AND 0xFF)"
  apply (subst mask_0xFF mask_0xFF_32)+
  apply (rule bit_word_eqI)
  apply (simp add: bit_simps)
  done

lemma js_byte_lo:
  "(ucast ((word_of_nat n :: 32 word) AND 0xFF) :: u8) = ucast ((word_of_nat n :: u64) AND 0xFF)"
  apply (subst mask_0xFF mask_0xFF_32)+
  apply (rule bit_word_eqI)
  apply (simp add: bit_simps)
  done

lemma ucast_of_nat_u8: "(ucast (word_of_nat n :: u64) :: u8) = word_of_nat n"
  apply (rule bit_word_eqI)
  apply (simp add: bit_simps)
  done

lemma encodeFrame_wire_frame:
  assumes "length p \<le> 65535"
  shows "encodeFrame opc p k = wire_frame \<lparr>fin = True, opcode = opc, payload = p\<rparr> (Some k)"
proof -
  from assms have "length p < 2 ^ 64" by simp
  then have u: "unat (word_of_nat (length p) :: u64) = length p" by (rule unat_of_nat64)
  show ?thesis
    using assms
    by (simp add: encodeFrame_def wire_frame_def wire_header_def Let_def word_le_nat_alt u
        js_byte_hi js_byte_lo ucast_of_nat_u8)
qed

subsection \<open>Prefixes of a buffer that \<open>decode\<close> accepts\<close>

lemma decode_too_short:
  assumes "length data < 2"
  shows "decode data = Nullopt"
proof -
  from assms have "length data < 2 ^ 64" by simp
  then have "unat (word_of_nat (length data) :: u64) = length data" by (rule unat_of_nat64)
  with assms have "(word_of_nat (length data) :: u64) < 2" by (simp add: word_less_nat_alt)
  then show ?thesis by (simp add: decode_def)
qed

lemma decode_payload_Decoded:
  assumes "decode_payload data sz f opc m len off = Decoded fr c"
  shows "c = off + len" and "unat off + unat len \<le> length data"
  using assms by (auto simp add: decode_payload_def split: if_splits)

lemma decode_payload_short:
  assumes "k < 2 ^ 64" and "k < unat (off + len)"
  shows "decode_payload d (word_of_nat k) f opc m len off = Nullopt"
proof -
  from assms(1) have "unat (word_of_nat k :: u64) = k" by (rule unat_of_nat64)
  with assms(2) have "(word_of_nat k :: u64) < off + len" by (simp add: word_less_nat_alt)
  then show ?thesis by (simp add: decode_payload_def)
qed

lemma decode_mask_Decoded:
  assumes "decode_mask data sz f opc masked len off = Decoded fr c"
  shows "unat c \<le> length data"
proof -
  from assms obtain m off' where "decode_payload data sz f opc m len off' = Decoded fr c"
    by (auto simp add: decode_mask_def split: if_splits)
  from decode_payload_Decoded[OF this]
  have "c = off' + len" and "unat off' + unat len \<le> length data" .
  moreover have "unat (off' + len) \<le> unat off' + unat len"
    by (simp add: unat_word_ariths)
  ultimately show ?thesis by simp
qed

lemma decode_mask_short:
  assumes r: "decode_mask data sz f opc masked len off = Decoded fr c"
    and k: "k < 2 ^ 64" "k < unat c"
  shows "decode_mask d (word_of_nat k) f' opc' masked len off = Nullopt"
proof (cases masked)
  case True
  with r have "decode_payload data sz f opc (map (\<lambda>k. data ! (unat off + k)) [0..<4]) len (off + 4)
               = Decoded fr c"
    by (simp add: decode_mask_def split: if_splits)
  then have "c = off + 4 + len" by (rule decode_payload_Decoded)
  with k have "decode_payload d (word_of_nat k) f' opc'
      (map (\<lambda>k. d ! (unat off + k)) [0..<4]) len (off + 4) = Nullopt"
    by (intro decode_payload_short) simp_all
  with True show ?thesis by (simp add: decode_mask_def)
next
  case False
  with r have "decode_payload data sz f opc [0, 0, 0, 0] len off = Decoded fr c"
    by (simp add: decode_mask_def)
  then have "c = off + len" by (rule decode_payload_Decoded)
  with k have "decode_payload d (word_of_nat k) f' opc' [0, 0, 0, 0] len off = Nullopt"
    by (intro decode_payload_short) simp_all
  with False show ?thesis by (simp add: decode_mask_def)
qed

lemma decode_Decoded_le:
  assumes "decode data = Decoded fr c"
  shows "unat c \<le> length data"
  using assms
  by (auto simp add: decode_def Let_def split: if_splits dest: decode_mask_Decoded)

lemma decode_prefix_Nullopt:
  assumes d: "length data < 2 ^ 64" and r: "decode data = Decoded fr c" and k: "k < unat c"
  shows "decode (take k data) = Nullopt"
proof (cases "k < 2")
  case True
  then show ?thesis by (intro decode_too_short) simp
next
  case k2: False
  define d' where "d' = take k data"
  from decode_Decoded_le[OF r] k have kl: "k < length data" by simp
  then have lk: "length d' = k" by (simp add: d'_def)
  have nth: "d' ! i = data ! i" if "i < k" for i
    using that by (simp add: d'_def)
  from kl d have k64: "k < 2 ^ 64" by simp
  have uk: "unat (word_of_nat k :: u64) = k" using k64 by (rule unat_of_nat64)
  from r have s2: "\<not> (word_of_nat (length data) :: u64) < 2"
    by (auto simp add: decode_def split: if_splits)
  have t2: "\<not> (word_of_nat k :: u64) < 2"
    using k2 by (simp add: word_less_nat_alt uk)
  from k2 have b0: "d' ! 0 = data ! 0" and b1: "d' ! Suc 0 = data ! Suc 0"
    by (simp_all add: nth)
  let ?len0 = "ucast (data ! Suc 0 AND 0x7F) :: u64"
  consider (medium) "?len0 = 126" | (large) "?len0 \<noteq> 126" "?len0 = 127"
    | (small) "?len0 \<noteq> 126" "?len0 \<noteq> 127"
    by blast
  then have "decode d' = Nullopt"
  proof cases
    case small
    with r s2 have "decode_mask data (word_of_nat (length data)) (data ! 0 AND 0x80 \<noteq> 0)
        (data ! 0 AND 0x0F) (data ! Suc 0 AND 0x80 \<noteq> 0) ?len0 2 = Decoded fr c"
      by (simp add: decode_def Let_def)
    from decode_mask_short[OF this k64 k]
    show ?thesis using small t2 by (simp add: decode_def Let_def lk b0 b1)
  next
    case medium
    let ?L = "push_bit 8 (ucast (data ! 2)) OR ucast (data ! 3) :: u64"
    from medium r s2 have m: "decode_mask data (word_of_nat (length data)) (data ! 0 AND 0x80 \<noteq> 0)
        (data ! 0 AND 0x0F) (data ! Suc 0 AND 0x80 \<noteq> 0) ?L 4 = Decoded fr c"
      by (simp add: decode_def Let_def split: if_splits)
    show ?thesis
    proof (cases "k < 4")
      case True
      then have "(word_of_nat k :: u64) < 4" by (simp add: word_less_nat_alt uk)
      with medium t2 show ?thesis by (simp add: decode_def Let_def lk b0 b1)
    next
      case False
      then have t4: "\<not> (word_of_nat k :: u64) < 4" by (simp add: word_less_nat_alt uk)
      from False have b: "d' ! 2 = data ! 2" "d' ! 3 = data ! 3" by (simp_all add: nth)
      from decode_mask_short[OF m k64 k]
      show ?thesis using medium t2 t4 by (simp add: decode_def Let_def lk b0 b1 b)
    qed
  next
    case large
    let ?L = "foldl (\<lambda>l i. push_bit 8 l OR ucast (data ! Suc (Suc i))) 0 [0..<8] :: u64"
    from large r s2 have m: "decode_mask data (word_of_nat (length data)) (data ! 0 AND 0x80 \<noteq> 0)
        (data ! 0 AND 0x0F) (data ! Suc 0 AND 0x80 \<noteq> 0) ?L 10 = Decoded fr c"
      by (simp add: decode_def Let_def split: if_splits)
    show ?thesis
    proof (cases "k < 10")
      case True
      then have "(word_of_nat k :: u64) < 10" by (simp add: word_less_nat_alt uk)
      with large t2 show ?thesis by (simp add: decode_def Let_def lk b0 b1)
    next
      case False
      then have t10: "\<not> (word_of_nat k :: u64) < 10" by (simp add: word_less_nat_alt uk)
      from False have "foldl (\<lambda>l i. push_bit 8 l OR ucast (d' ! Suc (Suc i))) 0 [0..<8] = ?L"
        by (simp add: upt_8 nth)
      with decode_mask_short[OF m k64 k]
      show ?thesis using large t2 t10 by (simp add: decode_def Let_def lk b0 b1)
    qed
  qed
  then show ?thesis by (simp only: d'_def)
qed

lemma wire_hello_masked:
  "wire_frame hello_frame (Some (0x12, 0x34, 0x56, 0x78))
   = [0x81, 0x85, 0x12, 0x34, 0x56, 0x78, 0x7A, 0x51, 0x3A, 0x14, 0x7D]"
  by (simp add: wire_frame_def wire_header_def hello_frame_def TEXT_def upt_rec)

lemma wire_close_masked:
  "wire_frame close_frame (Some (0xA1, 0xB2, 0xC3, 0xD4))
   = [0x88, 0x82, 0xA1, 0xB2, 0xC3, 0xD4, 0xA2, 0x5A]"
  by (simp add: wire_frame_def wire_header_def close_frame_def CLOSE_def upt_rec)

lemma encodeFrame_hello:
  "encodeFrame 0x1 (map of_char ''hello'') (0x12, 0x34, 0x56, 0x78)
   = [0x81, 0x85, 0x12, 0x34, 0x56, 0x78, 0x7A, 0x51, 0x3A, 0x14, 0x7D]"
  by (simp add: encodeFrame_def upt_rec)


text \<open>What the page sends decodes to the frame it encodes, and no strict prefix of it does.\<close>

lemma decode_encodeFrame_append:
  assumes "opc < 16" and "length p \<le> 65535"
    and "length (encodeFrame opc p mk @ rest) < 2 ^ 64"
  shows "decode (encodeFrame opc p mk @ rest)
         = Decoded \<lparr>fin = True, opcode = opc, payload = p\<rparr>
             (word_of_nat (length (encodeFrame opc p mk)))"
  using decode_wire_frame_append[of "\<lparr>fin = True, opcode = opc, payload = p\<rparr>" "Some mk" rest]
    assms
  by (simp add: encodeFrame_wire_frame)

lemma decode_prefix_encodeFrame:
  assumes "opc < 16" and "length p \<le> 65535"
    and len: "length (encodeFrame opc p mk) < 2 ^ 64" and k: "k < length (encodeFrame opc p mk)"
  shows "decode (take k (encodeFrame opc p mk)) = Nullopt"
proof -
  have "decode (encodeFrame opc p mk @ [])
        = Decoded \<lparr>fin = True, opcode = opc, payload = p\<rparr>
            (word_of_nat (length (encodeFrame opc p mk)))"
    using assms(1,2) len by (intro decode_encodeFrame_append) simp_all
  then have "decode (encodeFrame opc p mk)
        = Decoded \<lparr>fin = True, opcode = opc, payload = p\<rparr>
            (word_of_nat (length (encodeFrame opc p mk)))"
    by simp
  moreover have "k < unat (word_of_nat (length (encodeFrame opc p mk)) :: u64)"
    using k by (simp add: unat_of_nat64[OF len])
  ultimately show ?thesis using len by (intro decode_prefix_Nullopt)
qed

subsection \<open>Round trip and packing\<close>

text \<open>
  Claim C1. For every frame whose opcode is a 4-bit value and whose payload has any length
  that a buffer can have (the encoding is shorter than \<open>2\<^sup>6\<^sup>4\<close> bytes), \<open>decode\<close> of the bytes
  that \<open>encode\<close> gives returns the same frame: the same \<open>fin\<close>, the same opcode and the same
  payload; and the number of bytes it reports as consumed is the length of the encoding.
\<close>

theorem encode_decode_roundtrip:
  assumes "opcode f < 16" and "length (encode f) < 2 ^ 64"
  shows "decode (encode f) = Decoded f (word_of_nat (length (encode f)))
         \<and> unat (word_of_nat (length (encode f)) :: u64) = length (encode f)"
  using decode_encode_append[of f "[]"] assms by (simp add: unat_of_nat64)

theorem encode_decode_roundtrip_witness:
  "opcode \<lparr>fin = True, opcode = PING, payload = [0x70, 0x69]\<rparr> < 16
   \<and> length (encode \<lparr>fin = True, opcode = PING, payload = [0x70, 0x69]\<rparr>) < 2 ^ 64
   \<and> decode (encode \<lparr>fin = True, opcode = PING, payload = [0x70, 0x69]\<rparr>)
       = Decoded \<lparr>fin = True, opcode = PING, payload = [0x70, 0x69]\<rparr> 4"
proof -
  let ?f = "\<lparr>fin = True, opcode = PING, payload = [0x70, 0x69]\<rparr>"
  have h1: "opcode ?f < 16" by (simp add: PING_def)
  have h2: "length (encode ?f) < 2 ^ 64" by (simp add: encode_def)
  have l: "length (encode ?f) = 4" by (simp add: encode_def)
  from encode_decode_roundtrip[OF h1 h2] have "decode (encode ?f) = Decoded ?f 4"
    unfolding l by simp
  with h1 h2 show ?thesis by blast
qed

text \<open>
  Claim C8. For two frames on the wire, each masked with any key or not masked, one after
  the other in a buffer, \<open>decode\<close> gives the first frame; \<open>decode\<close> on the buffer without
  the bytes consumed gives the second; and the two counts of consumed bytes add up to the
  length of the buffer.
\<close>

theorem decode_two_frames:
  assumes "opcode f1 < 16" and "opcode f2 < 16"
    and "length (wire_frame f1 key1 @ wire_frame f2 key2) < 2 ^ 64"
  shows "decode (wire_frame f1 key1 @ wire_frame f2 key2)
           = Decoded f1 (word_of_nat (length (wire_frame f1 key1)))
    \<and> decode (drop (unat (word_of_nat (length (wire_frame f1 key1)) :: u64))
                 (wire_frame f1 key1 @ wire_frame f2 key2))
        = Decoded f2 (word_of_nat (length (wire_frame f2 key2)))
    \<and> unat (word_of_nat (length (wire_frame f1 key1)) :: u64)
        + unat (word_of_nat (length (wire_frame f2 key2)) :: u64)
        = length (wire_frame f1 key1 @ wire_frame f2 key2)"
proof -
  from assms(3) have l1: "length (wire_frame f1 key1) < 2 ^ 64"
    and l2: "length (wire_frame f2 key2) < 2 ^ 64"
    by simp_all
  have "decode (wire_frame f1 key1 @ wire_frame f2 key2)
        = Decoded f1 (word_of_nat (length (wire_frame f1 key1)))"
    using assms(1,3) by (rule decode_wire_frame_append)
  moreover have "decode (wire_frame f2 key2)
        = Decoded f2 (word_of_nat (length (wire_frame f2 key2)))"
    using decode_wire_frame_append[of f2 key2 "[]"] assms(2) l2 by simp
  ultimately show ?thesis
    by (simp add: unat_of_nat64[OF l1] unat_of_nat64[OF l2])
qed

theorem decode_two_frames_witness:
  "decode ([0x81, 0x85, 0x12, 0x34, 0x56, 0x78, 0x7A, 0x51, 0x3A, 0x14, 0x7D]
           @ [0x88, 0x82, 0xA1, 0xB2, 0xC3, 0xD4, 0xA2, 0x5A])
     = Decoded \<lparr>fin = True, opcode = 0x1, payload = [0x68, 0x65, 0x6C, 0x6C, 0x6F]\<rparr> 11
   \<and> decode (drop 11 ([0x81, 0x85, 0x12, 0x34, 0x56, 0x78, 0x7A, 0x51, 0x3A, 0x14, 0x7D]
                      @ [0x88, 0x82, 0xA1, 0xB2, 0xC3, 0xD4, 0xA2, 0x5A]))
     = Decoded \<lparr>fin = True, opcode = 0x8, payload = [0x03, 0xE8]\<rparr> 8
   \<and> decode (encode hello_frame @ encode close_frame) = Decoded hello_frame 7
   \<and> decode (drop 7 (encode hello_frame @ encode close_frame)) = Decoded close_frame 4"
proof -
  let ?k1 = "Some (0x12, 0x34, 0x56, 0x78) :: mask_key option"
  let ?k2 = "Some (0xA1, 0xB2, 0xC3, 0xD4) :: mask_key option"
  have h1: "opcode hello_frame < 16" by (simp add: hello_frame_def TEXT_def)
  have h2: "opcode close_frame < 16" by (simp add: close_frame_def CLOSE_def)
  have h3: "length (wire_frame hello_frame ?k1 @ wire_frame close_frame ?k2) < 2 ^ 64"
    by (simp add: wire_hello_masked wire_close_masked)
  have f1: "hello_frame = \<lparr>fin = True, opcode = 0x1, payload = [0x68, 0x65, 0x6C, 0x6C, 0x6F]\<rparr>"
    by (simp add: hello_frame_def TEXT_def)
  have f2: "close_frame = \<lparr>fin = True, opcode = 0x8, payload = [0x03, 0xE8]\<rparr>"
    by (simp add: close_frame_def CLOSE_def)
  have m: "decode ([0x81, 0x85, 0x12, 0x34, 0x56, 0x78, 0x7A, 0x51, 0x3A, 0x14, 0x7D]
           @ [0x88, 0x82, 0xA1, 0xB2, 0xC3, 0xD4, 0xA2, 0x5A])
     = Decoded \<lparr>fin = True, opcode = 0x1, payload = [0x68, 0x65, 0x6C, 0x6C, 0x6F]\<rparr> 11
   \<and> decode (drop 11 ([0x81, 0x85, 0x12, 0x34, 0x56, 0x78, 0x7A, 0x51, 0x3A, 0x14, 0x7D]
                      @ [0x88, 0x82, 0xA1, 0xB2, 0xC3, 0xD4, 0xA2, 0x5A]))
     = Decoded \<lparr>fin = True, opcode = 0x8, payload = [0x03, 0xE8]\<rparr> 8"
    using decode_two_frames[OF h1 h2 h3, unfolded wire_hello_masked wire_close_masked]
    by (simp add: f1 f2)
  have e1: "length (encode hello_frame) = 7" and e2: "length (encode close_frame) = 4"
    by (simp_all add: encode_def hello_frame_def close_frame_def)
  have h4: "length (wire_frame hello_frame None @ wire_frame close_frame None) < 2 ^ 64"
    by (simp add: wire_frame_None e1 e2)
  have u: "decode (encode hello_frame @ encode close_frame) = Decoded hello_frame 7
   \<and> decode (drop 7 (encode hello_frame @ encode close_frame)) = Decoded close_frame 4"
    using decode_two_frames[OF h1 h2 h4, unfolded wire_frame_None e1 e2]
    by simp
  from m u show ?thesis by blast
qed

text \<open>
  Claim C4. For every frame on the wire, masked with any key or not masked, \<open>decode\<close> of a
  strict prefix (the first \<open>k\<close> bytes, \<open>k\<close> less than the length of the frame) returns
  \<open>std::nullopt\<close>, the insufficient-data result: never a frame. The same holds for every
  buffer from which \<open>decode\<close> reads a frame: no shorter prefix of the bytes it consumed gives
  a frame.
\<close>

theorem decode_prefix_insufficient:
  "(opcode f < 16 \<and> length (wire_frame f key) < 2 ^ 64 \<and> k < length (wire_frame f key)
    \<longrightarrow> decode (take k (wire_frame f key)) = Nullopt)
   \<and> (length data < 2 ^ 64 \<and> decode data = Decoded frame consumed \<and> k < unat consumed
    \<longrightarrow> decode (take k data) = Nullopt)"
proof -
  have "decode (take k (wire_frame f key)) = Nullopt"
    if opc: "opcode f < 16" and len: "length (wire_frame f key) < 2 ^ 64"
      and k: "k < length (wire_frame f key)"
  proof -
    have "decode (wire_frame f key @ [])
          = Decoded f (word_of_nat (length (wire_frame f key)))"
      using opc len by (intro decode_wire_frame_append) simp_all
    then have "decode (wire_frame f key) = Decoded f (word_of_nat (length (wire_frame f key)))"
      by simp
    moreover have "k < unat (word_of_nat (length (wire_frame f key)) :: u64)"
      using k by (simp add: unat_of_nat64[OF len])
    ultimately show ?thesis using len by (intro decode_prefix_Nullopt)
  qed
  moreover have "decode (take k data) = Nullopt"
    if "length data < 2 ^ 64" and "decode data = Decoded frame consumed" and "k < unat consumed"
    using that by (rule decode_prefix_Nullopt)
  ultimately show ?thesis by blast
qed

theorem decode_prefix_insufficient_witness:
  "decode (take 7 [0x81, 0x85, 0x12, 0x34, 0x56, 0x78, 0x7A, 0x51, 0x3A, 0x14, 0x7D]) = Nullopt
   \<and> decode (take 3 (encode hello_frame)) = Nullopt
   \<and> decode (take 10 [0x81, 0x85, 0x12, 0x34, 0x56, 0x78, 0x7A, 0x51, 0x3A, 0x14, 0x7D]) = Nullopt"
proof -
  let ?k = "Some (0x12, 0x34, 0x56, 0x78) :: mask_key option"
  let ?bytes = "[0x81, 0x85, 0x12, 0x34, 0x56, 0x78, 0x7A, 0x51, 0x3A, 0x14, 0x7D] :: u8 list"
  have h1: "opcode hello_frame < 16 \<and> length (wire_frame hello_frame ?k) < 2 ^ 64
      \<and> 7 < length (wire_frame hello_frame ?k)"
    by (simp add: wire_hello_masked) (simp add: hello_frame_def TEXT_def)
  have w1: "decode (take 7 ?bytes) = Nullopt"
    using decode_prefix_insufficient[of hello_frame ?k 7, THEN conjunct1, rule_format, OF h1]
    unfolding wire_hello_masked .
  have h2: "opcode hello_frame < 16 \<and> length (wire_frame hello_frame None) < 2 ^ 64
      \<and> 3 < length (wire_frame hello_frame None)"
    by (simp add: wire_frame_None encode_def hello_frame_def TEXT_def)
  have w2: "decode (take 3 (encode hello_frame)) = Nullopt"
    using decode_prefix_insufficient[of hello_frame None 3, THEN conjunct1, rule_format, OF h2]
    unfolding wire_frame_None .
  have h3: "length ?bytes < 2 ^ 64
      \<and> decode ?bytes
          = Decoded \<lparr>fin = True, opcode = 0x1, payload = [0x68, 0x65, 0x6C, 0x6C, 0x6F]\<rparr> 11
      \<and> 10 < unat (11 :: u64)"
    by (simp add: decode_def decode_mask_def decode_payload_def upt_rec)
  have w3: "decode (take 10 ?bytes) = Nullopt"
    using decode_prefix_insufficient[where data = ?bytes and k = 10, THEN conjunct2,
        rule_format, OF h3] .
  from w1 w2 w3 show ?thesis by blast
qed

subsection \<open>A declared length near \<open>2\<^sup>6\<^sup>4\<close>\<close>

text \<open>
  The third result of \<open>decode\<close> arises only when \<open>offset + length\<close> has wrapped around: the
  declared length is then at least \<open>2\<^sup>6\<^sup>4 - 14\<close>.
\<close>

lemma decode_payload_resize:
  assumes d: "length data < 2 ^ 64"
    and r: "decode_payload data (word_of_nat (length data)) f opc m len off = Resize_Unchecked n"
  shows "n = len \<and> 2 ^ 64 \<le> unat off + unat len"
proof -
  from r have c1: "\<not> (word_of_nat (length data) :: u64) < off + len"
    and c2: "length data < unat off + unat len" and n: "n = len"
    by (auto simp add: decode_payload_def split: if_splits)
  have "2 ^ 64 \<le> unat off + unat len"
  proof (rule ccontr)
    assume "\<not> 2 ^ 64 \<le> unat off + unat len"
    then have "unat off + unat len < 2 ^ LENGTH(64)" by simp
    then have "unat (off + len) = unat off + unat len" by (simp only: unat_add_lem)
    with c2 d have "(word_of_nat (length data) :: u64) < off + len"
      by (simp add: word_less_nat_alt unat_of_nat64)
    with c1 show False ..
  qed
  with n show ?thesis ..
qed

lemma decode_mask_resize:
  assumes d: "length data < 2 ^ 64"
    and r: "decode_mask data (word_of_nat (length data)) f opc masked len off = Resize_Unchecked n"
    and off: "unat off \<le> 10"
  shows "2 ^ 64 \<le> 14 + unat n"
proof (cases masked)
  case True
  with r have "decode_payload data (word_of_nat (length data)) f opc
      (map (\<lambda>k. data ! (unat off + k)) [0..<4]) len (off + 4) = Resize_Unchecked n"
    by (simp add: decode_mask_def split: if_splits)
  from decode_payload_resize[OF d this]
  have "n = len" and "2 ^ 64 \<le> unat (off + 4) + unat len" by simp_all
  moreover have "unat (off + 4) \<le> unat off + 4"
    by (simp add: unat_word_ariths)
  ultimately show ?thesis using off by simp
next
  case False
  with r have "decode_payload data (word_of_nat (length data)) f opc [0, 0, 0, 0] len off
      = Resize_Unchecked n"
    by (simp add: decode_mask_def)
  from decode_payload_resize[OF d this] off show ?thesis by simp
qed

lemma decode_resize_only_on_wrap:
  assumes d: "length data < 2 ^ 64" and r: "decode data = Resize_Unchecked n"
  shows "2 ^ 64 \<le> 14 + unat n"
proof -
  from r obtain f opc masked len off
    where "decode_mask data (word_of_nat (length data)) f opc masked len off
           = Resize_Unchecked n"
      and "unat off \<le> 10"
    by (auto simp add: decode_def Let_def split: if_splits)
  with d show ?thesis by (rule decode_mask_resize)
qed

text \<open>
  Claim C2 says that a declared payload length larger than the bytes that remain in the
  buffer always gives the insufficient-data result, before any allocation. On the ten bytes
  \<open>81 7F FF FF FF FF FF FF FF FF\<close> the declared length is \<open>2\<^sup>6\<^sup>4 - 1\<close> and no byte remains
  after the header; \<open>offset + length\<close> wraps around to 9, the test \<open>size < offset + length\<close> is
  false, and \<open>decode\<close> goes on to \<open>frame.payload.resize(length)\<close> with that length.
\<close>

theorem decode_length_wraps:
  "decode [0x81, 0x7F, 0xFF, 0xFF, 0xFF, 0xFF, 0xFF, 0xFF, 0xFF, 0xFF]
   = Resize_Unchecked 0xFFFFFFFFFFFFFFFF"
  by (simp add: decode_def decode_mask_def decode_payload_def upt_8)

section \<open>Properties of the frame queue\<close>

lemma m_queue_push_all: "m_queue (push_all frames q) = m_queue q @ frames"
  unfolding push_all_def by (induction frames arbitrary: q) (simp_all add: push_def)

lemma m_closed_push_all: "m_closed (push_all frames q) = m_closed q"
  unfolding push_all_def by (induction frames arbitrary: q) (simp_all add: push_def)

lemma push_all_eq: "push_all frames q = q\<lparr>m_queue := m_queue q @ frames\<rparr>"
  by (rule FrameQueue.equality) (simp_all add: m_queue_push_all m_closed_push_all)

lemma wait_pop_empty: "m_queue q = [] \<Longrightarrow> wait_pop q = (None, q)"
  by (simp add: wait_pop_def)

lemma wait_pop_Cons: "m_queue q = f # fs \<Longrightarrow> wait_pop q = (Some f, q\<lparr>m_queue := fs\<rparr>)"
  by (simp add: wait_pop_def)

lemma wait_pops_eq:
  "wait_pops n q =
     (map Some (take n (m_queue q)) @ replicate (n - length (m_queue q)) None,
      q\<lparr>m_queue := drop n (m_queue q)\<rparr>)"
proof (induction n arbitrary: q)
  case 0
  show ?case by simp
next
  case (Suc n)
  show ?case
  proof (cases "m_queue q")
    case Nil
    then show ?thesis
      by (simp add: wait_pop_empty Suc.IH replicate_app_Cons_same)
  next
    case (Cons f fs)
    then show ?thesis
      by (simp add: wait_pop_Cons Suc.IH)
  qed
qed

text \<open>
  Claim C5. Frames pushed in order are returned by successive calls of \<open>wait_pop\<close> in the same
  order, after the frames that were already pending; and one call of \<open>wait_pop\<close> returns at
  most one frame, the head of the queue, and removes exactly that one.
\<close>

theorem queue_fifo:
  "wait_pops (length (m_queue q) + length frames) (push_all frames q)
     = (map Some (m_queue q @ frames), q\<lparr>m_queue := []\<rparr>)
   \<and> wait_pops (length frames) (push_all frames FrameQueue_new)
     = (map Some frames, FrameQueue_new)
   \<and> (case wait_pop q of
         (None, q') \<Rightarrow> q' = q
       | (Some f, q') \<Rightarrow> m_queue q = f # m_queue q' \<and> m_closed q' = m_closed q)"
proof -
  have "wait_pops (length (m_queue q) + length frames) (push_all frames q)
     = (map Some (m_queue q @ frames), q\<lparr>m_queue := []\<rparr>)"
    by (simp add: wait_pops_eq push_all_eq)
  moreover have "wait_pops (length frames) (push_all frames FrameQueue_new)
     = (map Some frames, FrameQueue_new)"
    by (simp add: wait_pops_eq push_all_eq FrameQueue_new_def)
  moreover have "case wait_pop q of
         (None, q') \<Rightarrow> q' = q
       | (Some f, q') \<Rightarrow> m_queue q = f # m_queue q' \<and> m_closed q' = m_closed q"
    by (cases "m_queue q") (simp_all add: wait_pop_empty wait_pop_Cons)
  ultimately show ?thesis by simp
qed

theorem queue_fifo_witness:
  "wait_pops (length [hello_frame, close_frame])
     (push_all [hello_frame, close_frame] FrameQueue_new)
   = ([Some hello_frame, Some close_frame], FrameQueue_new)"
  using queue_fifo[of FrameQueue_new "[hello_frame, close_frame]", THEN conjunct2,
      THEN conjunct1]
  by simp

text \<open>
  Claim C9. After \<open>reset\<close> the queue is the queue as newly created, empty and open, whatever
  it held before: the closed flag is cleared, \<open>wait_pop\<close> returns no frame, and the calls of
  \<open>wait_pop\<close> after later pushes return those later frames only. A second \<open>reset\<close> changes
  nothing.
\<close>

theorem reset_fresh:
  "reset q = FrameQueue_new
   \<and> reset (reset q) = reset q
   \<and> m_closed (reset q) = False
   \<and> wait_pop (reset q) = (None, FrameQueue_new)
   \<and> wait_pops n (push_all frames (reset q))
       = (map Some (take n frames) @ replicate (n - length frames) None,
          \<lparr>m_queue = drop n frames, m_closed = False\<rparr>)"
proof -
  have r: "reset q = FrameQueue_new"
    by (simp add: reset_def FrameQueue_new_def)
  have "reset (reset q) = reset q"
    by (simp add: reset_def)
  moreover have "wait_pop FrameQueue_new = (None, FrameQueue_new)"
    by (simp add: wait_pop_def FrameQueue_new_def)
  moreover have "wait_pops n (push_all frames FrameQueue_new)
       = (map Some (take n frames) @ replicate (n - length frames) None,
          \<lparr>m_queue = drop n frames, m_closed = False\<rparr>)"
    by (simp add: wait_pops_eq push_all_eq FrameQueue_new_def)
  ultimately show ?thesis
    unfolding r by (simp add: FrameQueue_new_def)
qed

theorem reset_fresh_witness:
  "reset (close (push hello_frame FrameQueue_new)) = FrameQueue_new
   \<and> wait_pop (reset (close (push hello_frame FrameQueue_new))) = (None, FrameQueue_new)"
  using reset_fresh[of "close (push hello_frame FrameQueue_new)" 0 "[]"]
  by blast

text \<open>
  Claim C10. \<open>close\<close> leaves the pending frames in the queue: after it, the calls of
  \<open>wait_pop\<close> return the frames pushed before the close and those pushed after it, one per
  call in arrival order, and return no frame only when none is pending.
\<close>

theorem close_keeps_frames:
  "m_queue (close q) = m_queue q
   \<and> wait_pops n (push_all frames (close q))
       = (map Some (take n (m_queue q @ frames))
            @ replicate (n - length (m_queue q @ frames)) None,
          \<lparr>m_queue = drop n (m_queue q @ frames), m_closed = True\<rparr>)
   \<and> (fst (wait_pop (close q)) = None) = (m_queue q = [])"
proof -
  have "m_queue (close q) = m_queue q"
    by (simp add: close_def)
  moreover have "wait_pops n (push_all frames (close q))
       = (map Some (take n (m_queue q @ frames))
            @ replicate (n - length (m_queue q @ frames)) None,
          \<lparr>m_queue = drop n (m_queue q @ frames), m_closed = True\<rparr>)"
    by (simp add: wait_pops_eq push_all_eq close_def)
  moreover have "(fst (wait_pop (close q)) = None) = (m_queue q = [])"
    by (simp add: wait_pop_def close_def)
  ultimately show ?thesis by simp
qed

theorem close_keeps_frames_witness:
  "wait_pops 3 (push_all [close_frame] (close (push hello_frame FrameQueue_new)))
   = ([Some hello_frame, Some close_frame, None], \<lparr>m_queue = [], m_closed = True\<rparr>)"
  using close_keeps_frames[of "push hello_frame FrameQueue_new" 3 "[close_frame]",
      THEN conjunct2, THEN conjunct1]
  by (simp add: push_def FrameQueue_new_def)

section \<open>Properties of the test mode\<close>













lemma encode_close_frame: "encode close_frame = [0x88, 0x02, 0x03, 0xE8]"
  by (simp add: encode_def close_frame_def CLOSE_def)















section \<open>Properties of the delivery handler\<close>

text \<open>
  Claim C3 says that the handler decodes every frame of a delivery and pushes each of them.
  For a delivery of two encoded frames the handler pushes the first frame and not the second.
\<close>

theorem binary_message_two_frames_counterexample:
  "binary_message (encode hello_frame @ encode close_frame) FrameQueue_new
     = Inr (push hello_frame FrameQueue_new)
   \<and> binary_message (encode hello_frame @ encode close_frame) FrameQueue_new
     \<noteq> Inr (push close_frame (push hello_frame FrameQueue_new))"
proof -
  have "opcode hello_frame < 16" by (simp add: hello_frame_def TEXT_def)
  moreover have "length (encode hello_frame @ encode close_frame) < 2 ^ 64"
    by (simp add: encode_close_frame) (simp add: encode_def hello_frame_def)
  ultimately have "decode (encode hello_frame @ encode close_frame)
      = Decoded hello_frame (word_of_nat (length (encode hello_frame)))"
    by (rule decode_encode_append)
  then show ?thesis
    by (simp add: binary_message_def push_def FrameQueue_new_def)
qed

text \<open>
  Claim C3, amended. The handler calls \<open>decode\<close> once on the delivered buffer and pushes at
  most one frame: when the buffer begins with a frame on the wire (masked with any key, as
  the page's \<open>encodeFrame\<close> sends it, or not masked) it pushes that frame, whatever bytes
  follow it (a second frame among them), and when the handler returns the queue is either
  unchanged or longer by one frame.
\<close>

theorem binary_message_first_frame:
  "(opcode f < 16 \<and> length (wire_frame f key @ rest) < 2 ^ 64
    \<longrightarrow> binary_message (wire_frame f key @ rest) q = Inr (push f q))
   \<and> (opc < 16 \<and> length p \<le> 65535 \<and> length (encodeFrame opc p mk @ rest) < 2 ^ 64
    \<longrightarrow> binary_message (encodeFrame opc p mk @ rest) q
        = Inr (push \<lparr>fin = True, opcode = opc, payload = p\<rparr> q))
   \<and> (binary_message data q = Inr q' \<longrightarrow> q' = q \<or> (\<exists>frame. q' = push frame q))"
proof -
  have a: "binary_message (wire_frame f key @ rest) q = Inr (push f q)"
    if "opcode f < 16" and "length (wire_frame f key @ rest) < 2 ^ 64" for f key
    using decode_wire_frame_append[OF that] by (simp add: binary_message_def)
  have "binary_message (encodeFrame opc p mk @ rest) q
        = Inr (push \<lparr>fin = True, opcode = opc, payload = p\<rparr> q)"
    if "opc < 16" and "length p \<le> 65535" and "length (encodeFrame opc p mk @ rest) < 2 ^ 64"
    using decode_encodeFrame_append[OF that] by (simp add: binary_message_def)
  moreover have "q' = q \<or> (\<exists>frame. q' = push frame q)" if "binary_message data q = Inr q'"
    using that by (auto simp add: binary_message_def split: decode_result.splits)
  ultimately show ?thesis using a by blast
qed

theorem binary_message_first_frame_witness:
  "binary_message ([0x81, 0x85, 0x12, 0x34, 0x56, 0x78, 0x7A, 0x51, 0x3A, 0x14, 0x7D]
                   @ [0x88, 0x82, 0xA1, 0xB2, 0xC3, 0xD4, 0xA2, 0x5A]) FrameQueue_new
     = Inr \<lparr>m_queue = [\<lparr>fin = True, opcode = 0x1, payload = [0x68, 0x65, 0x6C, 0x6C, 0x6F]\<rparr>],
            m_closed = False\<rparr>
   \<and> binary_message (encodeFrame 0x1 (map of_char ''hello'') (0x12, 0x34, 0x56, 0x78)
                     @ encodeFrame 0x8 [0x03, 0xE8] (0xA1, 0xB2, 0xC3, 0xD4)) FrameQueue_new
     = Inr \<lparr>m_queue = [\<lparr>fin = True, opcode = 0x1, payload = [0x68, 0x65, 0x6C, 0x6C, 0x6F]\<rparr>],
            m_closed = False\<rparr>"
proof -
  let ?k1 = "Some (0x12, 0x34, 0x56, 0x78) :: mask_key option"
  let ?k2 = "Some (0xA1, 0xB2, 0xC3, 0xD4) :: mask_key option"
  have h1: "opcode hello_frame < 16
      \<and> length (wire_frame hello_frame ?k1 @ wire_frame close_frame ?k2) < 2 ^ 64"
    by (simp add: wire_hello_masked wire_close_masked) (simp add: hello_frame_def TEXT_def)
  have w1: "binary_message ([0x81, 0x85, 0x12, 0x34, 0x56, 0x78, 0x7A, 0x51, 0x3A, 0x14, 0x7D]
                   @ [0x88, 0x82, 0xA1, 0xB2, 0xC3, 0xD4, 0xA2, 0x5A]) FrameQueue_new
     = Inr \<lparr>m_queue = [\<lparr>fin = True, opcode = 0x1, payload = [0x68, 0x65, 0x6C, 0x6C, 0x6F]\<rparr>],
            m_closed = False\<rparr>"
    using binary_message_first_frame[of hello_frame ?k1 "wire_frame close_frame ?k2"
        FrameQueue_new, THEN conjunct1, rule_format, OF h1,
        unfolded wire_hello_masked wire_close_masked]
    by (simp add: push_def FrameQueue_new_def hello_frame_def TEXT_def)
  have h2: "(0x1 :: u8) < 16 \<and> length (map of_char ''hello'' :: u8 list) \<le> 65535
      \<and> length (encodeFrame 0x1 (map of_char ''hello'') (0x12, 0x34, 0x56, 0x78)
                 @ encodeFrame 0x8 [0x03, 0xE8] (0xA1, 0xB2, 0xC3, 0xD4)) < 2 ^ 64"
    by (simp add: encodeFrame_def)
  have w2: "binary_message (encodeFrame 0x1 (map of_char ''hello'') (0x12, 0x34, 0x56, 0x78)
                     @ encodeFrame 0x8 [0x03, 0xE8] (0xA1, 0xB2, 0xC3, 0xD4)) FrameQueue_new
     = Inr \<lparr>m_queue = [\<lparr>fin = True, opcode = 0x1, payload = [0x68, 0x65, 0x6C, 0x6C, 0x6F]\<rparr>],
            m_closed = False\<rparr>"
    using binary_message_first_frame[where opc = "0x1" and p = "map of_char ''hello''"
        and mk = "(0x12, 0x34, 0x56, 0x78)"
        and rest = "encodeFrame 0x8 [0x03, 0xE8] (0xA1, 0xB2, 0xC3, 0xD4)"
        and q = FrameQueue_new, THEN conjunct2, THEN conjunct1, rule_format, OF h2]
    by (simp add: push_def FrameQueue_new_def)
  from w1 w2 show ?thesis by blast
qed

section \<open>Properties of the interactive mode\<close>
















end
